theory Spec2Isabelle
  imports Complex_Main "HOL-Library.Word" "HOL-Library.Signed_Division"
begin

section \<open>Machine integers\<close>

text \<open>
  Every argument of the program's functions, and every result but that of
  \<^verbatim>\<open>average\<close>, is a C \<^verbatim>\<open>int\<close>: a 32-bit two's complement machine integer. It is
  modelled as a \<open>32 word\<close>; \<open>+\<close>, \<open>-\<close> and \<open>*\<close> wrap around modulo
  \<open>2 ^ 32\<close> (the platform's overflow behaviour that the specification refers to),
  \<open>sint\<close> reads the signed value, and \<open><=s\<close>, \<open><s\<close> are the signed comparisons
  that C's \<^verbatim>\<open><=\<close> and \<^verbatim>\<open><\<close> perform on \<^verbatim>\<open>int\<close>.
\<close>

type_synonym cint = "32 word"

text \<open>
  The signed value of an \<^verbatim>\<open>int\<close> lies between \<open>- 2 ^ 31\<close> and \<open>2 ^ 31 - 1\<close>.
  Subtracting 1 or 2 from a value above 1, and adding 1 to a value below another one,
  stay inside that range and do not wrap.
\<close>

lemma sint_range: "- (2 ^ 31) \<le> sint (x :: cint) \<and> sint x < 2 ^ 31"
  using sint_lt [of x] sint_ge [of x] by simp

lemma sint_minus_small:
  assumes "1 < sint (n :: cint)" and "k = 1 \<or> k = 2"
  shows "sint (n - k) = sint n - sint k"
proof -
  have "sint n < 2 ^ 31" using sint_range [of n] by simp
  with assms have "signed_take_bit 31 (sint n - sint k) = sint n - sint k"
    by (intro signed_take_bit_int_eq_self) auto
  then show ?thesis by (simp add: sint_word_ariths)
qed

lemma sint_plus_one:
  assumes "sint (i :: cint) < sint (c :: cint)"
  shows "sint (i + 1) = sint i + 1"
proof -
  have "sint c < 2 ^ 31" and "- (2 ^ 31) \<le> sint i"
    using sint_range [of c] sint_range [of i] by simp_all
  with assms have "signed_take_bit 31 (sint i + 1) = sint i + 1"
    by (intro signed_take_bit_int_eq_self) auto
  then show ?thesis by (simp add: sint_word_ariths)
qed

text \<open>
  C's \<^verbatim>\<open>%\<close> truncates towards zero: the remainder has the sign of the dividend.
  On mathematical integers that is \<open>smod\<close>; the operands are read with \<open>sint\<close> and
  the result is stored back into an \<^verbatim>\<open>int\<close>. The program only divides by the
  constant 2, so the undefined cases of C (a zero divisor, the least integer by -1)
  do not arise.
\<close>

definition c_mod :: "cint \<Rightarrow> cint \<Rightarrow> cint" where
  "c_mod a b = word_of_int (sint a smod sint b)"

text \<open>The result of a C comparison is the \<^verbatim>\<open>int\<close> 1 or 0.\<close>

definition c_bool :: "bool \<Rightarrow> cint" where
  "c_bool p = (if p then 1 else 0)"


section \<open>utils.c\<close>

text \<open>\<^verbatim>\<open>int add(int a, int b) { return a + b; }\<close>\<close>

definition add :: "cint \<Rightarrow> cint \<Rightarrow> cint" where
  "add a b = a + b"

text \<open>\<^verbatim>\<open>int subtract(int a, int b) { return a - b; }\<close>\<close>

definition subtract :: "cint \<Rightarrow> cint \<Rightarrow> cint" where
  "subtract a b = a - b"

text \<open>\<^verbatim>\<open>int multiply(int a, int b) { return a * b; }\<close>\<close>

definition multiply :: "cint \<Rightarrow> cint \<Rightarrow> cint" where
  "multiply a b = a * b"

text \<open>\<^verbatim>\<open>int is_even(int n) { return n % 2 == 0; }\<close>\<close>

definition is_even :: "cint \<Rightarrow> cint" where
  "is_even n = c_bool (c_mod n 2 = 0)"


section \<open>math\_utils.c\<close>

text \<open>\<^verbatim>\<open>int square_sum(int a, int b) { return a * a + b * b; }\<close>\<close>

definition square_sum :: "cint \<Rightarrow> cint \<Rightarrow> cint" where
  "square_sum a b = a * a + b * b"

text \<open>
  A C \<^verbatim>\<open>double\<close> is an IEEE 754 binary64 number. A finite one is modelled as the
  real number it denotes: a significand of at most 53 bits times a power of two with
  an exponent between -1074 and 971 (subnormal numbers included).
\<close>

definition is_binary64 :: "real \<Rightarrow> bool" where
  "is_binary64 x \<longleftrightarrow>
     (\<exists>m e :: int. \<bar>m\<bar> < 2 ^ 53 \<and> - 1074 \<le> e \<and> e \<le> 971 \<and> x = of_int m * 2 powi e)"

text \<open>
  An operation on doubles computes the exact real result and rounds it to a double.
  The rounding function \<open>rnd\<close> is a parameter: it stands for whichever rounding mode
  is in force. All that is required of it is the rule of IEEE 754 that a result which
  is itself a double is returned unchanged.
\<close>

definition exact_on_binary64 :: "(real \<Rightarrow> real) \<Rightarrow> bool" where
  "exact_on_binary64 rnd \<longleftrightarrow> (\<forall>x. is_binary64 x \<longrightarrow> rnd x = x)"

text \<open>The conversion of an \<^verbatim>\<open>int\<close> to \<^verbatim>\<open>double\<close>, and the division of doubles.\<close>

definition int_to_double :: "(real \<Rightarrow> real) \<Rightarrow> cint \<Rightarrow> real" where
  "int_to_double rnd x = rnd (of_int (sint x))"

definition double_div :: "(real \<Rightarrow> real) \<Rightarrow> real \<Rightarrow> real \<Rightarrow> real" where
  "double_div rnd x y = rnd (x / y)"

text \<open>
  \<^verbatim>\<open>double average(int a, int b) { return (a + b) / 2.0; }\<close>

  The sum is an \<^verbatim>\<open>int\<close> addition; it is converted to \<^verbatim>\<open>double\<close> because the other
  operand, the constant 2.0, is one; then the doubles are divided.
\<close>

definition average :: "(real \<Rightarrow> real) \<Rightarrow> cint \<Rightarrow> cint \<Rightarrow> real" where
  "average rnd a b = double_div rnd (int_to_double rnd (a + b)) 2"

text \<open>A rounding function that obeys the rule: it maps what is not a double to 0.\<close>

definition rnd_or_zero :: "real \<Rightarrow> real" where
  "rnd_or_zero x = (if is_binary64 x then x else 0)"


section \<open>complex.c\<close>

text \<open>
  \<^verbatim>\<open>int fibonacci(int n) {
    if (n <= 1) return n;
    return fibonacci(n-1) + fibonacci(n-2);
}\<close>

  The recursion is not structural. Below the guard the argument is at least 2, so
  \<open>n - 1\<close> and \<open>n - 2\<close> do not wrap and the signed value decreases.
\<close>

function fibonacci :: "cint \<Rightarrow> cint" where
  "fibonacci n = (if n <=s 1 then n else fibonacci (n - 1) + fibonacci (n - 2))"
  by pat_completeness auto
termination
proof (relation "measure (\<lambda>n. nat (sint n))")
  show "wf (measure (\<lambda>n :: cint. nat (sint n)))" by simp
next
  fix n :: cint assume "\<not> n <=s 1"
  then have "1 < sint n" by (simp add: word_sle_eq)
  then show "(n - 1, n) \<in> measure (\<lambda>n. nat (sint n))"
    using sint_minus_small [of n 1] by simp
next
  fix n :: cint assume "\<not> n <=s 1"
  then have "1 < sint n" by (simp add: word_sle_eq)
  then show "(n - 2, n) \<in> measure (\<lambda>n. nat (sint n))"
    using sint_minus_small [of n 2] by simp
qed

declare fibonacci.simps [simp del]

text \<open>
  The same function body with nothing assumed about termination: a call that does not
  return has the value \<open>None\<close>.
\<close>

partial_function (option) fibonacci_opt :: "cint \<Rightarrow> cint option" where
  "fibonacci_opt n =
     (if n <=s 1 then Some n
      else Option.bind (fibonacci_opt (n - 1)) (\<lambda>a.
           Option.bind (fibonacci_opt (n - 2)) (\<lambda>b. Some (a + b))))"

text \<open>The calls that the body of \<^verbatim>\<open>fibonacci\<close> makes: \<open>(m, n)\<close> when the call at \<open>n\<close>
  calls itself at \<open>m\<close>.\<close>

definition fibonacci_calls :: "(cint \<times> cint) set" where
  "fibonacci_calls = {(m, n). \<not> n <=s 1 \<and> (m = n - 1 \<or> m = n - 2)}"

text \<open>
  The mathematical Fibonacci sequence on natural numbers, as the specification names
  it, to compare \<^verbatim>\<open>fibonacci\<close> with.
\<close>

fun fib_spec :: "nat \<Rightarrow> nat" where
  "fib_spec 0 = 0"
| "fib_spec (Suc 0) = 1"
| "fib_spec (Suc (Suc n)) = fib_spec (Suc n) + fib_spec n"

text \<open>
  \<^verbatim>\<open>printf("%d ", x)\<close> writes the decimal digits of the signed value of \<open>x\<close>, with a
  leading minus sign when it is negative, and then the space of the format string.
  \<open>fmt_d\<close> is the conversion \<^verbatim>\<open>%d\<close>; standard output is the string written so far.
\<close>

definition digit_char :: "int \<Rightarrow> char" where
  "digit_char d = ''0123456789'' ! nat d"

function dec_digits :: "int \<Rightarrow> string" where
  "dec_digits n =
     (if n < 10 then [digit_char n] else dec_digits (n div 10) @ [digit_char (n mod 10)])"
  by pat_completeness auto
termination
  by (relation "measure nat") auto

declare dec_digits.simps [simp del]

definition fmt_d :: "cint \<Rightarrow> string" where
  "fmt_d x = (if sint x < 0 then CHR ''-'' # dec_digits (- sint x) else dec_digits (sint x))"

text \<open>
  \<^verbatim>\<open>void print_sequence(int count) {
    for (int i = 0; i < count; i++) {
        printf("%d ", fibonacci(i));
    }
}\<close>

  The loop counter stays below \<open>count\<close>, so \<open>i++\<close> does not wrap and the distance to
  \<open>count\<close> decreases.
\<close>

function print_sequence_loop :: "cint \<Rightarrow> cint \<Rightarrow> string \<Rightarrow> string" where
  "print_sequence_loop i count out =
     (if i <s count
      then print_sequence_loop (i + 1) count (out @ fmt_d (fibonacci i) @ '' '')
      else out)"
  by pat_completeness auto
termination
proof (relation "measure (\<lambda>(i, count, out). nat (sint count - sint i))")
  show "wf (measure (\<lambda>(i :: cint, count :: cint, out :: string). nat (sint count - sint i)))"
    by simp
next
  fix i count :: cint and out :: string
  assume "i <s count"
  then have lt: "sint i < sint count" by (simp add: word_sless_alt)
  then show "((i + 1, count, out @ fmt_d (fibonacci i) @ '' ''), (i, count, out))
      \<in> measure (\<lambda>(i, count, out). nat (sint count - sint i))"
    using sint_plus_one [OF lt] by simp
qed

declare print_sequence_loop.simps [simp del]

definition print_sequence :: "cint \<Rightarrow> string \<Rightarrow> string" where
  "print_sequence count out = print_sequence_loop 0 count out"

text \<open>
  What the specification says \<^verbatim>\<open>print_sequence\<close> writes for \<open>c\<close> numbers:
  \<open>fibonacci 0\<close> up to \<open>fibonacci (c - 1)\<close>, each followed by one space.
\<close>

definition fib_line :: "nat \<Rightarrow> string" where
  "fib_line c = concat (map (\<lambda>k. fmt_d (fibonacci (word_of_nat k)) @ '' '') [0..<c])"


section \<open>Arithmetic helpers: properties\<close>

lemma sint_smod_2_cases: "sint (n :: cint) smod 2 \<in> {-1, 0, 1}"
  by (auto simp: signed_modulo_int_def sgn_if abs_if)

lemma c_mod_2_eq_0_iff: "c_mod n 2 = 0 \<longleftrightarrow> even (sint n)"
proof -
  have "sint n smod 2 = 0 \<longleftrightarrow> even (sint n)"
    by (auto simp: signed_modulo_int_def sgn_if abs_if)
  moreover have "(word_of_int (sint n smod 2) :: cint) = 0 \<longleftrightarrow> sint n smod 2 = 0"
    using sint_smod_2_cases [of n] by auto
  ultimately show ?thesis by (simp add: c_mod_def)
qed

text \<open>
  Claim C4: for every representable \<open>n\<close>, \<open>is_even n\<close> is 1 when the signed value of
  \<open>n\<close> is a multiple of 2 and 0 otherwise, negative values included.
\<close>

theorem is_even_parity: "is_even n = (if 2 dvd sint n then 1 else 0)"
  by (simp add: is_even_def c_bool_def c_mod_2_eq_0_iff)

text \<open>
  Claim C6: for all integers \<open>a\<close>, \<open>b\<close>, \<open>subtract a b\<close> is the negation of
  \<open>subtract b a\<close> in the wrapping arithmetic of the machine integer: its signed value
  is the negated signed value of \<open>subtract b a\<close> wrapped to 32 bits. This covers the
  case where \<open>b - a\<close> is the least integer, whose negation wraps to itself, as for
  \<open>a = - 2147483648\<close> and \<open>b = 0\<close>.
\<close>

theorem subtract_antisymmetric:
  "subtract a b = - subtract b a
   \<and> sint (subtract a b) = signed_take_bit 31 (- sint (subtract b a))
   \<and> sint (subtract 0 (- 2147483648)) = - 2147483648
   \<and> sint (subtract (- 2147483648) 0) = - 2147483648"
proof (intro conjI)
  show neg: "subtract a b = - subtract b a"
    by (simp add: subtract_def)
  show "sint (subtract a b) = signed_take_bit 31 (- sint (subtract b a))"
    unfolding neg by (simp add: sint_word_ariths)
  show "sint (subtract 0 (- 2147483648)) = - 2147483648"
    by (simp add: subtract_def)
  show "sint (subtract (- 2147483648) 0) = - 2147483648"
    by (simp add: subtract_def)
qed

text \<open>
  Claim C7: for all integers \<open>a\<close>, \<open>b\<close>, \<open>add a b\<close> equals \<open>add b a\<close>; the sum is the
  mathematical sum of the signed values wrapped to 32 bits.
\<close>

theorem add_commutative:
  "add a b = add b a \<and> add a b = word_of_int (sint a + sint b)"
  by (simp add: add_def add.commute)

text \<open>
  Claim C8: for all integers \<open>a\<close>, \<open>b\<close>, \<open>square_sum a b\<close> is \<open>a * a + b * b\<close> in the
  machine integer's arithmetic, that is the sum of the squares of the signed values
  wrapped to 32 bits; and \<open>square_sum 3 4\<close> is 25.
\<close>

theorem square_sum_value:
  "square_sum a b = a * a + b * b
   \<and> square_sum a b = word_of_int ((sint a)\<^sup>2 + (sint b)\<^sup>2)
   \<and> square_sum 3 4 = 25"
  by (simp add: square_sum_def power2_eq_square)

lemma is_binary64_of_int:
  assumes "\<bar>k\<bar> < 2 ^ 53"
  shows "is_binary64 (of_int k)"
  unfolding is_binary64_def
proof (intro exI conjI)
  show "\<bar>k\<bar> < 2 ^ 53" by (rule assms)
  show "- 1074 \<le> (0 :: int)" and "(0 :: int) \<le> 971" by simp_all
  show "(of_int k :: real) = of_int k * 2 powi 0" by simp
qed

lemma is_binary64_half:
  assumes "\<bar>k\<bar> < 2 ^ 53"
  shows "is_binary64 (of_int k / 2)"
  unfolding is_binary64_def
proof (intro exI conjI)
  show "\<bar>k\<bar> < 2 ^ 53" by (rule assms)
  show "- 1074 \<le> (- 1 :: int)" and "(- 1 :: int) \<le> 971" by simp_all
  show "(of_int k / 2 :: real) = of_int k * 2 powi (- 1)" by (simp add: power_int_minus)
qed

lemma sint_abs_small: "\<bar>sint (x :: cint)\<bar> < 2 ^ 53"
proof -
  have "\<bar>sint x\<bar> \<le> 2 ^ 31" using sint_range [of x] by linarith
  also have "(2 ^ 31 :: int) < 2 ^ 53" by simp
  finally show ?thesis .
qed

lemma average_eq:
  assumes "exact_on_binary64 rnd"
  shows "average rnd a b = of_int (sint (a + b)) / 2"
proof -
  have exact: "is_binary64 x \<Longrightarrow> rnd x = x" for x
    using assms unfolding exact_on_binary64_def by blast
  have c: "rnd (of_int (sint (a + b))) = of_int (sint (a + b))"
    by (rule exact [OF is_binary64_of_int [OF sint_abs_small]])
  have d: "rnd (of_int (sint (a + b)) / 2) = of_int (sint (a + b)) / 2"
    by (rule exact [OF is_binary64_half [OF sint_abs_small]])
  show ?thesis
    unfolding average_def double_div_def int_to_double_def c d ..
qed

lemma rnd_or_zero_exact: "exact_on_binary64 rnd_or_zero"
  by (simp add: exact_on_binary64_def rnd_or_zero_def)

text \<open>
  Claim C5: \<open>average a b\<close> is \<open>(a + b) / 2.0\<close> computed in double precision, and the
  quotient is not truncated to an integer: under every rounding that leaves doubles
  unchanged the result is exactly half the signed value of the \<^verbatim>\<open>int\<close> sum, and it
  is a double. In particular \<open>average 4 6 = 5\<close> and \<open>average 5 3 = 4\<close> exactly, while
  \<open>average 4 5\<close> is \<open>9 / 2\<close>.
\<close>

theorem average_exact:
  "exact_on_binary64 rnd \<Longrightarrow>
     average rnd a b = of_int (sint (a + b)) / 2
     \<and> is_binary64 (average rnd a b)
     \<and> average rnd 4 6 = 5 \<and> average rnd 5 3 = 4 \<and> average rnd 4 5 = 9 / 2
     \<and> average rnd 2147483647 1 = - 1073741824"
proof (intro conjI)
  assume r: "exact_on_binary64 rnd"
  show "average rnd a b = of_int (sint (a + b)) / 2"
    by (rule average_eq [OF r])
  show "is_binary64 (average rnd a b)"
    unfolding average_eq [OF r] by (rule is_binary64_half [OF sint_abs_small])
  show "average rnd 4 6 = 5"
    unfolding average_eq [OF r] by simp
  show "average rnd 5 3 = 4"
    unfolding average_eq [OF r] by simp
  show "average rnd 4 5 = 9 / 2"
    unfolding average_eq [OF r] by simp
  show "average rnd 2147483647 1 = - 1073741824"
    unfolding average_eq [OF r] by simp
qed

theorem average_exact_witness:
  "exact_on_binary64 rnd_or_zero
   \<and> average rnd_or_zero 4 6 = 5 \<and> average rnd_or_zero 5 3 = 4
   \<and> average rnd_or_zero 4 5 = 9 / 2"
  using average_exact [OF rnd_or_zero_exact] rnd_or_zero_exact by simp


section \<open>fibonacci\<close>

lemma fibonacci_base: "n <=s 1 \<Longrightarrow> fibonacci n = n"
  by (simp add: fibonacci.simps)

lemma fibonacci_rec:
  "\<not> n <=s 1 \<Longrightarrow> fibonacci n = fibonacci (n - 1) + fibonacci (n - 2)"
  by (subst fibonacci.simps) simp

lemma fibonacci_opt_eq: "fibonacci_opt n = Some (fibonacci n)"
  by (induction n rule: fibonacci.induct)
     (subst fibonacci_opt.simps, subst fibonacci.simps, simp)

lemma sint_0_or_1:
  assumes "sint (n :: cint) = 0 \<or> sint n = 1"
  shows "n = 0 \<or> n = 1"
  using assms
proof
  assume a: "sint n = 0"
  have "n = word_of_int (sint n)" by simp
  also have "\<dots> = 0" unfolding a by simp
  finally show ?thesis by simp
next
  assume a: "sint n = 1"
  have "n = word_of_int (sint n)" by simp
  also have "\<dots> = 1" unfolding a by simp
  finally show ?thesis by simp
qed

lemma fibonacci_fib_spec:
  "0 \<le> sint n \<Longrightarrow> fibonacci n = word_of_nat (fib_spec (nat (sint n)))"
proof (induction n rule: fibonacci.induct)
  case (1 n)
  show ?case
  proof (cases "n <=s 1")
    case True
    with "1.prems" have "n = 0 \<or> n = 1"
      by (intro sint_0_or_1) (auto simp: word_sle_eq)
    then have "word_of_nat (fib_spec (nat (sint n))) = n"
      by auto
    with True show ?thesis by (simp add: fibonacci_base)
  next
    case False
    then have big: "1 < sint n" by (simp add: word_sle_eq)
    have s1: "sint (n - 1) = sint n - 1" and s2: "sint (n - 2) = sint n - 2"
      using sint_minus_small [OF big, of 1] sint_minus_small [OF big, of 2] by simp_all
    define m where "m = nat (sint n - 2)"
    have m: "nat (sint n) = Suc (Suc m)"
      using big by (simp add: m_def)
    then have m1: "nat (sint n - 1) = Suc m" and m2: "nat (sint n - 2) = m"
      by linarith+
    have "fibonacci (n - 1) = word_of_nat (fib_spec (Suc m))"
      using "1.IH"(1) [OF False] big s1 m1 by simp
    moreover have "fibonacci (n - 2) = word_of_nat (fib_spec m)"
      using "1.IH"(2) [OF False] big s2 m2 by simp
    ultimately show ?thesis
      using False m by (simp add: fibonacci_rec)
  qed
qed

text \<open>
  Claim C1: \<open>fibonacci\<close> computes the Fibonacci sequence by double recursion: for every
  \<open>n\<close> of at least 2, \<open>fibonacci n = fibonacci (n - 1) + fibonacci (n - 2)\<close>; for every
  \<open>n\<close> of at least 0 the result is the \<open>n\<close>-th Fibonacci number as a machine integer;
  and \<open>fibonacci 0 = 0\<close>, \<open>fibonacci 1 = 1\<close>, \<open>fibonacci 5 = 5\<close>, \<open>fibonacci 10 = 55\<close>.
\<close>

theorem fibonacci_recurrence:
  "(\<forall>n. 2 <=s n \<longrightarrow> fibonacci n = fibonacci (n - 1) + fibonacci (n - 2))
   \<and> (\<forall>n. 0 <=s n \<longrightarrow> fibonacci n = word_of_nat (fib_spec (nat (sint n))))
   \<and> fibonacci 0 = 0 \<and> fibonacci 1 = 1 \<and> fibonacci 5 = 5 \<and> fibonacci 10 = 55"
proof (intro conjI allI impI)
  fix n :: cint assume "2 <=s n"
  then have "\<not> n <=s 1" by (simp add: word_sle_eq)
  then show "fibonacci n = fibonacci (n - 1) + fibonacci (n - 2)"
    by (rule fibonacci_rec)
next
  fix n :: cint assume "0 <=s n"
  then have "0 \<le> sint n" by (simp add: word_sle_eq)
  then show "fibonacci n = word_of_nat (fib_spec (nat (sint n)))"
    by (rule fibonacci_fib_spec)
next
  show "fibonacci 0 = 0" by (simp add: fibonacci_base word_sle_eq)
next
  show "fibonacci 1 = 1" by (simp add: fibonacci_base word_sle_eq)
next
  show "fibonacci 5 = 5" by (simp add: fibonacci_base fibonacci_rec word_sle_eq)
next
  show "fibonacci 10 = 55" by (simp add: fibonacci_base fibonacci_rec word_sle_eq)
qed

theorem fibonacci_recurrence_witness:
  "2 <=s (7 :: cint) \<and> fibonacci 7 = fibonacci 6 + fibonacci 5
   \<and> 0 <=s (7 :: cint) \<and> fibonacci 7 = word_of_nat (fib_spec 7)"
proof -
  have two: "2 <=s (7 :: cint)" and zero: "0 <=s (7 :: cint)"
    by (simp_all add: word_sle_eq)
  from fibonacci_recurrence two
  have "fibonacci 7 = fibonacci (7 - 1) + fibonacci (7 - 2)" by blast
  moreover from fibonacci_recurrence zero
  have "fibonacci 7 = word_of_nat (fib_spec (nat (sint (7 :: cint))))" by blast
  ultimately show ?thesis using two zero by simp
qed

text \<open>
  Claim C2: for every integer \<open>n\<close> below 0, \<open>fibonacci n\<close> returns \<open>n\<close> itself: the
  guard \<open>n <= 1\<close> is taken.
\<close>

theorem fibonacci_negative: "n <s 0 \<Longrightarrow> n <=s 1 \<and> fibonacci n = n"
proof -
  assume "n <s 0"
  then have "n <=s 1" by (simp add: word_sless_alt word_sle_eq)
  then show ?thesis by (simp add: fibonacci_base)
qed

theorem fibonacci_negative_witness:
  "(- 5 :: cint) <s 0 \<and> fibonacci (- 5) = - 5"
proof -
  have neg: "(- 5 :: cint) <s 0" by (simp add: word_sless_alt)
  from fibonacci_negative [OF neg] neg show ?thesis by simp
qed

text \<open>
  Claim C9: \<open>fibonacci\<close> returns for every integer input, negative ones included:
  every \<open>n\<close> below 2 returns at once by the guard, each recursive call is at a
  smaller argument that is not negative, and the call relation is well-founded.
\<close>

theorem fibonacci_terminates:
  "(\<forall>n. \<exists>v. fibonacci_opt n = Some v)
   \<and> (\<forall>n. n <s 2 \<longrightarrow> fibonacci_opt n = Some n)
   \<and> (\<forall>n :: cint. \<not> n <s 2 \<longrightarrow>
        0 \<le> sint (n - 2) \<and> sint (n - 2) < sint (n - 1) \<and> sint (n - 1) < sint n)
   \<and> wf fibonacci_calls"
proof (intro conjI allI impI)
  fix n :: cint
  show "\<exists>v. fibonacci_opt n = Some v" by (simp add: fibonacci_opt_eq)
next
  fix n :: cint assume "n <s 2"
  then have "n <=s 1" by (simp add: word_sless_alt word_sle_eq)
  then show "fibonacci_opt n = Some n" by (simp add: fibonacci_opt_eq fibonacci_base)
next
  fix n :: cint assume "\<not> n <s 2"
  then have big: "1 < sint n" by (simp add: word_sless_alt)
  have s1: "sint (n - 1) = sint n - 1" and s2: "sint (n - 2) = sint n - 2"
    using sint_minus_small [OF big, of 1] sint_minus_small [OF big, of 2] by simp_all
  show "0 \<le> sint (n - 2)" using big s2 by simp
  show "sint (n - 2) < sint (n - 1)" using s1 s2 by simp
  show "sint (n - 1) < sint n" using s1 by simp
next
  have "fibonacci_calls \<subseteq> measure (\<lambda>n. nat (sint n))"
  proof
    fix p assume "p \<in> fibonacci_calls"
    then obtain m n where p: "p = (m, n)" and guard: "\<not> n <=s 1"
      and m: "m = n - 1 \<or> m = n - 2"
      by (auto simp: fibonacci_calls_def)
    from guard have big: "1 < sint n" by (simp add: word_sle_eq)
    have "sint m < sint n"
      using m sint_minus_small [OF big, of 1] sint_minus_small [OF big, of 2] by auto
    with big p show "p \<in> measure (\<lambda>n. nat (sint n))" by simp
  qed
  then show "wf fibonacci_calls" by (rule wf_subset [OF wf_measure])
qed

theorem fibonacci_terminates_witness:
  "(- 3 :: cint) <s 2 \<and> fibonacci_opt (- 3) = Some (- 3)
   \<and> \<not> (5 :: cint) <s 2 \<and> sint (5 - 2 :: cint) < sint (5 - 1 :: cint)
   \<and> sint (5 - 1 :: cint) < sint (5 :: cint)
   \<and> (\<exists>v. fibonacci_opt 5 = Some v)"
proof -
  have small: "(- 3 :: cint) <s 2" and big: "\<not> (5 :: cint) <s 2"
    by (simp_all add: word_sless_alt)
  from fibonacci_terminates small have "fibonacci_opt (- 3) = Some (- 3)" by blast
  moreover from fibonacci_terminates big
  have "sint (5 - 2 :: cint) < sint (5 - 1 :: cint) \<and> sint (5 - 1 :: cint) < sint (5 :: cint)"
    by blast
  moreover from fibonacci_terminates have "\<exists>v. fibonacci_opt 5 = Some v" by blast
  ultimately show ?thesis using small big by blast
qed


section \<open>print\_sequence\<close>

lemma loop_stop: "\<not> i <s count \<Longrightarrow> print_sequence_loop i count out = out"
  by (simp add: print_sequence_loop.simps)

lemma loop_step:
  "i <s count \<Longrightarrow> print_sequence_loop i count out =
     print_sequence_loop (i + 1) count (out @ fmt_d (fibonacci i) @ '' '')"
  by (subst print_sequence_loop.simps) simp

lemma print_sequence_loop_eq:
  "0 \<le> sint i \<Longrightarrow> sint i \<le> sint count \<Longrightarrow>
   print_sequence_loop i count out =
     out @ concat (map (\<lambda>k. fmt_d (fibonacci (word_of_nat k)) @ '' '')
                    [nat (sint i)..<nat (sint count)])"
proof (induction i count out rule: print_sequence_loop.induct)
  case (1 i count out)
  show ?case
  proof (cases "i <s count")
    case False
    with "1.prems" have "sint i = sint count" by (simp add: word_sless_alt)
    with False show ?thesis by (simp add: loop_stop)
  next
    case True
    then have lt: "sint i < sint count" by (simp add: word_sless_alt)
    have s: "sint (i + 1) = sint i + 1" by (rule sint_plus_one [OF lt])
    have n: "nat (sint (i + 1)) = Suc (nat (sint i))"
      using "1.prems" s by simp
    have u: "[nat (sint i)..<nat (sint count)] =
        nat (sint i) # [Suc (nat (sint i))..<nat (sint count)]"
      using lt "1.prems" by (intro upt_conv_Cons) simp
    have w: "word_of_nat (nat (sint i)) = i"
      using "1.prems" by simp
    have "print_sequence_loop i count out =
        print_sequence_loop (i + 1) count (out @ fmt_d (fibonacci i) @ '' '')"
      by (rule loop_step [OF True])
    also have "\<dots> = (out @ fmt_d (fibonacci i) @ '' '') @
        concat (map (\<lambda>k. fmt_d (fibonacci (word_of_nat k)) @ '' '')
          [nat (sint (i + 1))..<nat (sint count)])"
      using "1.IH" [OF True] "1.prems" lt s by simp
    finally show ?thesis
      by (simp only: n u w list.map concat.simps append_assoc)
  qed
qed

lemma digit_char_set:
  assumes "0 \<le> d" and "d < 10"
  shows "digit_char d \<in> set ''0123456789''"
proof -
  from assms have "nat d < length ''0123456789''" by simp
  then show ?thesis unfolding digit_char_def by (rule nth_mem)
qed

lemma dec_digits_set: "0 \<le> n \<Longrightarrow> set (dec_digits n) \<subseteq> set ''0123456789''"
proof (induction n rule: dec_digits.induct)
  case (1 n)
  show ?case
  proof (cases "n < 10")
    case True
    with "1.prems" digit_char_set [of n] show ?thesis
      by (subst dec_digits.simps) simp
  next
    case False
    then have "set (dec_digits (n div 10)) \<subseteq> set ''0123456789''"
      using "1.IH" "1.prems" by simp
    moreover have "digit_char (n mod 10) \<in> set ''0123456789''"
      by (rule digit_char_set) simp_all
    ultimately show ?thesis using False
      by (subst dec_digits.simps) simp
  qed
qed

lemma set_Cons_mono: "set ys \<subseteq> set xs \<Longrightarrow> set (c # ys) \<subseteq> set (c # xs)"
  by auto

lemma fmt_d_set: "set (fmt_d x) \<subseteq> set ''-0123456789''"
proof (cases "sint x < 0")
  case True
  then have "set (dec_digits (- sint x)) \<subseteq> set ''0123456789''"
    by (intro dec_digits_set) simp
  then have "set (CHR ''-'' # dec_digits (- sint x)) \<subseteq> set ''-0123456789''"
    by (rule set_Cons_mono)
  with True show ?thesis by (simp only: fmt_d_def if_True)
next
  case False
  have "0 \<le> sint x" using False by simp
  then have "set (dec_digits (sint x)) \<subseteq> set ''0123456789''"
    by (rule dec_digits_set)
  also have "\<dots> \<subseteq> set ''-0123456789''"
    by (rule set_subset_Cons)
  finally show ?thesis using False by (simp only: fmt_d_def if_False)
qed

lemma newline_not_dec: "CHR 0x0A \<notin> set ''-0123456789''"
  by simp

lemma fib_line_no_newline: "CHR 0x0A \<notin> set (fib_line c)"
proof -
  have "CHR 0x0A \<notin> set (fmt_d x)" for x
    using fmt_d_set [of x] newline_not_dec by blast
  then show ?thesis by (simp add: fib_line_def)
qed

text \<open>
  Claim C3: for every \<open>count\<close> of at least 0, \<open>print_sequence count\<close> appends to the
  output \<open>fibonacci 0\<close> up to \<open>fibonacci (count - 1)\<close> in decimal, each followed by one
  space, and no newline; \<open>print_sequence 10\<close> on an empty output writes exactly
  \<open>''0 1 1 2 3 5 8 13 21 34 ''\<close>.
\<close>

theorem print_sequence_output:
  "(\<forall>count out. 0 <=s count \<longrightarrow>
      print_sequence count out = out @ fib_line (nat (sint count)))
   \<and> (\<forall>c. CHR 0x0A \<notin> set (fib_line c))
   \<and> print_sequence 10 [] = ''0 1 1 2 3 5 8 13 21 34 ''"
proof (intro conjI allI impI)
  fix count :: cint and out :: string
  assume "0 <=s count"
  then have "0 \<le> sint count" by (simp add: word_sle_eq)
  then have "print_sequence_loop 0 count out =
      out @ concat (map (\<lambda>k. fmt_d (fibonacci (word_of_nat k)) @ '' '')
                     [nat (sint (0 :: cint))..<nat (sint count)])"
    by (intro print_sequence_loop_eq) simp_all
  then show "print_sequence count out = out @ fib_line (nat (sint count))"
    by (simp add: print_sequence_def fib_line_def)
next
  fix c show "CHR 0x0A \<notin> set (fib_line c)" by (rule fib_line_no_newline)
next
  show "print_sequence 10 [] = ''0 1 1 2 3 5 8 13 21 34 ''"
    by (simp add: print_sequence_def loop_stop loop_step word_sless_alt word_sle_eq
        fibonacci_base fibonacci_rec fmt_d_def dec_digits.simps digit_char_def)
qed

theorem print_sequence_output_witness:
  "0 <=s (3 :: cint) \<and> print_sequence 3 ''> '' = ''> '' @ fib_line 3
   \<and> print_sequence 3 ''> '' = ''> 0 1 1 ''"
proof -
  have nonneg: "0 <=s (3 :: cint)" by (simp add: word_sle_eq)
  from print_sequence_output nonneg
  have "print_sequence 3 ''> '' = ''> '' @ fib_line (nat (sint (3 :: cint)))" by blast
  moreover have "print_sequence 3 ''> '' = ''> 0 1 1 ''"
    by (simp add: print_sequence_def loop_stop loop_step word_sless_alt word_sle_eq
        fibonacci_base fibonacci_rec fmt_d_def dec_digits.simps digit_char_def)
  ultimately show ?thesis using nonneg by simp
qed

text \<open>
  Claim C10: for every \<open>count\<close> of at most 0, negative ones included,
  \<open>print_sequence count\<close> writes nothing: the loop body is never run and the output
  is unchanged, so it is empty when it was empty.
\<close>

theorem print_sequence_nonpositive:
  "count <=s 0 \<Longrightarrow> print_sequence count out = out \<and> print_sequence count [] = []"
proof -
  assume "count <=s 0"
  then have "\<not> 0 <s count" by (simp add: word_sle_eq word_sless_alt)
  then show ?thesis by (simp add: print_sequence_def loop_stop)
qed

theorem print_sequence_nonpositive_witness:
  "(- 3 :: cint) <=s 0 \<and> print_sequence (- 3) [] = []
   \<and> (0 :: cint) <=s 0 \<and> print_sequence 0 [] = []"
proof -
  have neg: "(- 3 :: cint) <=s 0" and zero: "(0 :: cint) <=s 0"
    by (simp_all add: word_sle_eq)
  from print_sequence_nonpositive [OF neg] print_sequence_nonpositive [OF zero] neg zero
  show ?thesis by simp
qed

end
